theory Spec2Isabelle
  imports Complex_Main "HOL-Library.Char_ord" "HOL-Library.List_Lexorder"
begin

section \<open>Montemurro-Zanette keyword extraction: \<^verbatim>\<open>gensim/summarization/mz_entropy.py\<close>\<close>

text \<open>
  The input of the model is the token sequence that \<^verbatim>\<open>_tokenize_by_word\<close> yields
  (a list of strings); the tokenizer and \<^verbatim>\<open>to_unicode\<close> are collaborators outside this file.
  Python integers are \<open>int\<close>, list lengths and counts are \<open>nat\<close>.
\<close>

subsection \<open>Errors\<close>

text \<open>
  The exceptions the source can raise, as values.
  \<^item> \<open>KeyError\<close>: \<^verbatim>\<open>word2ind[word]\<close> for a word that is not in the vocabulary;
  \<^item> \<open>ValueError\<close>: \<^verbatim>\<open>range(0, len(words), blocksize)\<close> with a step of zero;
  \<^item> \<open>ScalarShapeError\<close>: the count matrix has no rows. \<^verbatim>\<open>np.array([])\<close> is then
    one-dimensional with shape \<open>(0,)\<close>, its sum over axis 0 is a scalar and so is \<open>h\<close>;
    the per-word steps that follow (\<^verbatim>\<open>.astype\<close> on the result of the analytic
    entropy, \<^verbatim>\<open>zip(vocab, h)\<close>) raise Python's AttributeError or TypeError;
  \<^item> \<open>EmptyDocumentError\<close>: the failure the specification names for an empty document.
    No statement of the source raises it.
\<close>

datatype error = KeyError | ValueError | ScalarShapeError | EmptyDocumentError

subsection \<open>Block frequency counter: \<^verbatim>\<open>count_freqs_by_blocks\<close>\<close>

text \<open>
  \<^verbatim>\<open>word2ind = {word: i for i, word in enumerate(vocab)}\<close>: the dictionary is filled from
  left to right, a later index replaces an earlier one for the same word.
\<close>

definition word2ind :: "string list \<Rightarrow> (string \<rightharpoonup> nat)" where
  "word2ind vocab = fold (\<lambda>(i, word) d. d(word \<mapsto> i)) (enumerate 0 vocab) Map.empty"

text \<open>
  The inner loop \<^verbatim>\<open>for word in words[i: i + blocksize]: counts[word2ind[word]] += 1\<close>.
  A missing key raises. An index read from \<open>word2ind\<close> is below \<open>len(vocab)\<close>, the length
  of \<open>counts\<close>, so the list update is always in range.
\<close>

fun count_block :: "(string \<rightharpoonup> nat) \<Rightarrow> string list \<Rightarrow> nat list \<Rightarrow> error + nat list" where
  "count_block d [] counts = Inr counts"
| "count_block d (word # ws) counts =
     (case d word of
        None \<Rightarrow> Inl KeyError
      | Some j \<Rightarrow> count_block d ws (counts[j := counts ! j + 1]))"

text \<open>
  The outer loop \<^verbatim>\<open>for i in range(0, len(words), blocksize)\<close> for a positive step,
  started at index \<open>i\<close>; the slice \<^verbatim>\<open>words[i: i + blocksize]\<close> is \<open>take blocksize (drop i words)\<close>.
\<close>

function count_rows ::
  "(string \<rightharpoonup> nat) \<Rightarrow> nat \<Rightarrow> string list \<Rightarrow> nat \<Rightarrow> nat \<Rightarrow> error + nat list list" where
  "count_rows d n_vocab words blocksize i =
     (if blocksize = 0 \<or> length words \<le> i then Inr []
      else case count_block d (take blocksize (drop i words)) (replicate n_vocab 0) of
             Inl e \<Rightarrow> Inl e
           | Inr counts \<Rightarrow>
               (case count_rows d n_vocab words blocksize (i + blocksize) of
                  Inl e \<Rightarrow> Inl e
                | Inr word_counts \<Rightarrow> Inr (counts # word_counts)))"
  by pat_completeness auto
termination
  by (relation "measure (\<lambda>(d, n_vocab, words, blocksize, i). length words - i)") auto

declare count_rows.simps [simp del]

text \<open>
  \<^verbatim>\<open>count_freqs_by_blocks(words, vocab, blocksize)\<close>. A step of zero makes \<open>range\<close> raise
  ValueError; a negative step gives an empty range and so a matrix without rows. The
  entries of the returned array are doubles holding these counts exactly.
\<close>

definition count_freqs_by_blocks :: "string list \<Rightarrow> string list \<Rightarrow> int \<Rightarrow> error + nat list list" where
  "count_freqs_by_blocks words vocab blocksize =
     (if blocksize = 0 then Inl ValueError
      else if blocksize < 0 then Inr []
      else count_rows (word2ind vocab) (length vocab) words (nat blocksize) 0)"

text \<open>The sum of column \<open>j\<close> of the matrix.\<close>

definition column_sum :: "nat list list \<Rightarrow> nat \<Rightarrow> nat" where
  "column_sum word_counts j = sum_list (map (\<lambda>counts. counts ! j) word_counts)"


subsection \<open>Doubles\<close>

text \<open>
  A double is modelled by its exact real value, or by one of the three special values of
  IEEE 754 that the program can produce and that decide what it returns: the two infinities
  and NaN. Rounding, overflow of finite values and the sign of zero are not modelled. The
  integer-valued doubles of the program (counts, totals, \<open>n_words\<close>, the values of \<open>m\<close>)
  are kept as \<open>nat\<close> or \<open>int\<close>.
\<close>

datatype fl = Num real | PInf | NInf | NaN

fun fl_neg :: "fl \<Rightarrow> fl" where
  "fl_neg (Num a) = Num (- a)"
| "fl_neg PInf = NInf"
| "fl_neg NInf = PInf"
| "fl_neg NaN = NaN"

fun fl_add :: "fl \<Rightarrow> fl \<Rightarrow> fl" where
  "fl_add (Num a) (Num b) = Num (a + b)"
| "fl_add NaN y = NaN"
| "fl_add x NaN = NaN"
| "fl_add PInf NInf = NaN"
| "fl_add NInf PInf = NaN"
| "fl_add PInf y = PInf"
| "fl_add x PInf = PInf"
| "fl_add NInf y = NInf"
| "fl_add x NInf = NInf"

definition fl_sub :: "fl \<Rightarrow> fl \<Rightarrow> fl" where
  "fl_sub x y = fl_add x (fl_neg y)"

text \<open>The product of an infinity and a finite value: NaN for zero, else by the sign.\<close>

definition inf_times :: "bool \<Rightarrow> real \<Rightarrow> fl" where
  "inf_times positive a =
     (if a = 0 then NaN else if (0 < a) = positive then PInf else NInf)"

fun fl_mul :: "fl \<Rightarrow> fl \<Rightarrow> fl" where
  "fl_mul (Num a) (Num b) = Num (a * b)"
| "fl_mul NaN y = NaN"
| "fl_mul x NaN = NaN"
| "fl_mul PInf (Num b) = inf_times True b"
| "fl_mul NInf (Num b) = inf_times False b"
| "fl_mul (Num a) PInf = inf_times True a"
| "fl_mul (Num a) NInf = inf_times False a"
| "fl_mul PInf PInf = PInf"
| "fl_mul NInf NInf = PInf"
| "fl_mul PInf NInf = NInf"
| "fl_mul NInf PInf = NInf"

text \<open>
  Division of two finite doubles as numpy does it: a zero divisor gives NaN or an
  infinity (with a warning), not an exception.
\<close>

definition div_np :: "real \<Rightarrow> real \<Rightarrow> fl" where
  "div_np a b =
     (if b = 0 then (if a = 0 then NaN else if 0 < a then PInf else NInf)
      else Num (a / b))"

text \<open>\<^verbatim>\<open>np.log\<close> on a finite double, \<^verbatim>\<open>np.log2\<close> and \<^verbatim>\<open>np.exp\<close>.\<close>

definition log_np :: "real \<Rightarrow> fl" where
  "log_np a = (if 0 < a then Num (ln a) else if a = 0 then NInf else NaN)"

fun fl_log2 :: "fl \<Rightarrow> fl" where
  "fl_log2 (Num a) = (if 0 < a then Num (log 2 a) else if a = 0 then NInf else NaN)"
| "fl_log2 PInf = PInf"
| "fl_log2 NInf = NaN"
| "fl_log2 NaN = NaN"

fun fl_exp :: "fl \<Rightarrow> fl" where
  "fl_exp (Num a) = Num (exp a)"
| "fl_exp PInf = PInf"
| "fl_exp NInf = Num 0"
| "fl_exp NaN = NaN"

text \<open>
  \<^verbatim>\<open>np.nan_to_num\<close>: NaN becomes zero, an infinity the largest finite double of its sign.
\<close>

definition dbl_max :: real where
  "dbl_max = (2 ^ 53 - 1) * 2 ^ 971"

fun nan_to_num :: "fl \<Rightarrow> fl" where
  "nan_to_num (Num a) = Num a"
| "nan_to_num PInf = Num dbl_max"
| "nan_to_num NInf = Num (- dbl_max)"
| "nan_to_num NaN = Num 0"

text \<open>The comparisons \<^verbatim>\<open>>\<close>, \<^verbatim>\<open><\<close> and \<^verbatim>\<open>>=\<close>: false whenever an operand is NaN.\<close>

fun fl_gt :: "fl \<Rightarrow> fl \<Rightarrow> bool" where
  "fl_gt (Num a) (Num b) = (b < a)"
| "fl_gt NaN y = False"
| "fl_gt x NaN = False"
| "fl_gt x PInf = False"
| "fl_gt PInf y = True"
| "fl_gt NInf y = False"
| "fl_gt x NInf = True"

definition fl_lt :: "fl \<Rightarrow> fl \<Rightarrow> bool" where
  "fl_lt x y = fl_gt y x"

definition fl_ge :: "fl \<Rightarrow> fl \<Rightarrow> bool" where
  "fl_ge x y = (x \<noteq> NaN \<and> y \<noteq> NaN \<and> \<not> fl_gt y x)"

text \<open>\<^verbatim>\<open>.sum()\<close> of a one-dimensional array; the sum of no elements is zero.\<close>

definition fl_sum :: "fl list \<Rightarrow> fl" where
  "fl_sum xs = foldr fl_add xs (Num 0)"

subsection \<open>Marginal probability: \<^verbatim>\<open>__log_combinations_inner\<close>, \<^verbatim>\<open>__marginal_prob\<close>\<close>

text \<open>
  \<^verbatim>\<open>scipy.special.betaln\<close> belongs to a library; it is modelled on the integer arguments
  that this program passes. For two positive integers it is the logarithm of
  \<open>(a - 1)! (b - 1)! / (a + b - 1)!\<close>. When one argument is a non-positive integer and the
  sum is positive, the Beta function has a pole and the library returns \<open>+inf\<close>. The
  program passes no other arguments (the second argument is positive and the sum is at
  least two whenever \<open>n \<le> n_words\<close>); the model gives NaN for them.
\<close>

definition betaln :: "int \<Rightarrow> int \<Rightarrow> fl" where
  "betaln a b =
     (if 0 < a \<and> 0 < b
      then Num (ln (fact (nat (a - 1)) * fact (nat (b - 1)) / fact (nat (a + b - 1))))
      else if 0 < a + b then PInf
      else NaN)"

text \<open>\<^verbatim>\<open>-(np.log(n + 1) + scipy.special.betaln(n - m + 1, m + 1))\<close>\<close>

definition log_combinations_inner :: "int \<Rightarrow> int \<Rightarrow> fl" where
  "log_combinations_inner n m =
     fl_neg (fl_add (log_np (of_int (n + 1))) (betaln (n - m + 1) (m + 1)))"

text \<open>
  The closure \<^verbatim>\<open>marginal_prob(n, m)\<close> built by \<^verbatim>\<open>__marginal_prob(blocksize, n_words)\<close>:
  \<^verbatim>\<open>np.exp(lc(n, m) + lc(n_words - n, blocksize - m) - lc(n_words, blocksize))\<close>,
  the sum evaluated from left to right.
\<close>

definition marginal_prob :: "int \<Rightarrow> int \<Rightarrow> int \<Rightarrow> int \<Rightarrow> fl" where
  "marginal_prob blocksize n_words n m =
     fl_exp (fl_sub
       (fl_add (log_combinations_inner n m)
               (log_combinations_inner (n_words - n) (blocksize - m)))
       (log_combinations_inner n_words blocksize))"

subsection \<open>Analytic entropy: \<^verbatim>\<open>__analytic_entropy\<close>\<close>

text \<open>
  One element of \<^verbatim>\<open>(p * np.log2(p)) * marginal(n, m)\<close> with \<^verbatim>\<open>p = m / n\<close>, then
  \<^verbatim>\<open>-n_blocks * elements.sum()\<close> over \<^verbatim>\<open>m = np.arange(1, min(blocksize, n) + 1)\<close>.
\<close>

definition entropy_element :: "int \<Rightarrow> int \<Rightarrow> int \<Rightarrow> int \<Rightarrow> fl" where
  "entropy_element blocksize n_words n m =
     (let p = div_np (of_int m) (of_int n)
      in fl_mul (fl_mul p (fl_log2 p)) (marginal_prob blocksize n_words n m))"

definition entropy_sum :: "int \<Rightarrow> int \<Rightarrow> int \<Rightarrow> int \<Rightarrow> fl" where
  "entropy_sum blocksize n_blocks n_words n =
     fl_mul (Num (of_int (- n_blocks)))
       (fl_sum (map (entropy_element blocksize n_words n) [1 .. min blocksize n]))"

text \<open>
  The closure \<^verbatim>\<open>analytic_entropy(n)\<close> with its dictionary \<open>cache\<close>, passed in and
  returned: a cached count is answered from the dictionary, any other is computed and
  stored. \<^verbatim>\<open>cache = {1: 0.0}\<close> is the dictionary at the start of an invocation.
\<close>

definition initial_cache :: "int \<rightharpoonup> fl" where
  "initial_cache = [1 \<mapsto> Num 0]"

definition analytic_entropy ::
  "int \<Rightarrow> int \<Rightarrow> int \<Rightarrow> (int \<rightharpoonup> fl) \<Rightarrow> int \<Rightarrow> fl \<times> (int \<rightharpoonup> fl)" where
  "analytic_entropy blocksize n_blocks n_words cache n =
     (case cache n of
        Some r \<Rightarrow> (r, cache)
      | None \<Rightarrow>
          (let result = entropy_sum blocksize n_blocks n_words n
           in (result, cache(n \<mapsto> result))))"

text \<open>
  \<^verbatim>\<open>analytic(totals)\<close>: the universal function calls \<open>analytic_entropy\<close> on the totals
  from left to right, each call with the dictionary the call before left.
\<close>

fun analytic_all ::
  "int \<Rightarrow> int \<Rightarrow> int \<Rightarrow> (int \<rightharpoonup> fl) \<Rightarrow> int list \<Rightarrow> fl list" where
  "analytic_all blocksize n_blocks n_words cache [] = []"
| "analytic_all blocksize n_blocks n_words cache (n # ns) =
     (case analytic_entropy blocksize n_blocks n_words cache n of
        (r, cache') \<Rightarrow> r # analytic_all blocksize n_blocks n_words cache' ns)"


subsection \<open>Keyword scorer: \<^verbatim>\<open>mz_keywords\<close>\<close>

text \<open>\<^verbatim>\<open>vocab = sorted(set(words))\<close>: Python orders strings by code point, lexicographically.\<close>

definition vocab_of :: "string list \<Rightarrow> string list" where
  "vocab_of words = sorted_list_of_set (set words)"

text \<open>
  \<^verbatim>\<open>totals = word_counts.sum(axis=0)\<close> for a matrix with at least one row: one sum for each
  column; \<^verbatim>\<open>n_words = totals.sum()\<close>.
\<close>

definition axis0_sum :: "nat list list \<Rightarrow> nat list" where
  "axis0_sum word_counts = map (column_sum word_counts) [0..<length (hd word_counts)]"

text \<open>
  One cell of \<^verbatim>\<open>np.nan_to_num(p * log_p)\<close> where \<^verbatim>\<open>p = word_counts / totals\<close> and
  \<^verbatim>\<open>log_p = np.log2(p)\<close>, and its sum over the blocks for every word (\<open>h\<close> after line 66).
\<close>

definition entropy_cell :: "nat \<Rightarrow> nat \<Rightarrow> fl" where
  "entropy_cell count word_total =
     (let p = div_np (real count) (real word_total); log_p = fl_log2 p
      in nan_to_num (fl_mul p log_p))"

definition observed_entropy :: "nat list list \<Rightarrow> nat list \<Rightarrow> fl list" where
  "observed_entropy word_counts totals =
     map (\<lambda>j. fl_sum (map (\<lambda>counts. entropy_cell (counts ! j) (totals ! j)) word_counts))
       [0..<length totals]"

text \<open>
  Lines 61 to 70: the scores \<open>h\<close> of the vocabulary words from a count matrix with at
  least one row. \<^verbatim>\<open>h += analytic(totals)\<close>, and with \<open>weighted\<close> \<^verbatim>\<open>h *= totals / n_words\<close>.
\<close>

definition mz_scores :: "nat list list \<Rightarrow> int \<Rightarrow> bool \<Rightarrow> fl list" where
  "mz_scores word_counts blocksize weighted =
     (let n_blocks = length word_counts;
          totals = axis0_sum word_counts;
          n_words = sum_list totals;
          h = observed_entropy word_counts totals;
          analytic = analytic_all blocksize (int n_blocks) (int n_words) initial_cache
                       (map int totals);
          h = map2 fl_add h analytic
      in if weighted
         then map2 (\<lambda>score word_total. fl_mul score (div_np (real word_total) (real n_words)))
                h totals
         else h)"

text \<open>
  The parameter \<open>threshold\<close> is a number or the string \<^verbatim>\<open>'auto'\<close>, which stands for
  \<^verbatim>\<open>n_blocks / (n_blocks + 1.0) + 1.0e-8\<close>.
\<close>

datatype threshold = Auto | Threshold fl

definition resolve_threshold :: "nat \<Rightarrow> threshold \<Rightarrow> fl" where
  "resolve_threshold n_blocks threshold =
     (case threshold of
        Auto \<Rightarrow> fl_add (div_np (real n_blocks) (real n_blocks + 1)) (Num (1 / 10 ^ 8))
      | Threshold t \<Rightarrow> t)"

text \<open>
  \<^verbatim>\<open>weights.sort(key=lambda x: -x[1])\<close>: Python's sort is stable and compares the keys with
  \<^verbatim>\<open><\<close> only. On keys without NaN every stable sort returns the same list; the model is
  the insertion sort that puts an element in front of the first one whose key is not
  smaller, elements taken from the right.
\<close>

fun insort_weight :: "string \<times> fl \<Rightarrow> (string \<times> fl) list \<Rightarrow> (string \<times> fl) list" where
  "insort_weight x [] = [x]"
| "insort_weight x (y # ys) =
     (if fl_lt (fl_neg (snd y)) (fl_neg (snd x)) then y # insort_weight x ys
      else x # y # ys)"

definition sort_weights :: "(string \<times> fl) list \<Rightarrow> (string \<times> fl) list" where
  "sort_weights weights = foldr insort_weight weights []"

text \<open>Lines 73 and 74: the list \<open>weights\<close>, filtered and sorted.\<close>

definition keyword_weights :: "string list \<Rightarrow> fl list \<Rightarrow> fl \<Rightarrow> (string \<times> fl) list" where
  "keyword_weights vocab h threshold =
     sort_weights (filter (\<lambda>(word, score). fl_gt score threshold) (zip vocab h))"

text \<open>\<^verbatim>\<open>'\n'.join(result)\<close>\<close>

fun join_newline :: "string list \<Rightarrow> string" where
  "join_newline [] = []"
| "join_newline [word] = word"
| "join_newline (word # ws) = word @ CHR 0x0A # join_newline ws"

text \<open>The three shapes of the value returned, and lines 75 to 78.\<close>

datatype result = Scored "(string \<times> fl) list" | Keywords "string list" | Joined string

definition format_result :: "bool \<Rightarrow> bool \<Rightarrow> (string \<times> fl) list \<Rightarrow> result" where
  "format_result scores split weights =
     (if scores then Scored weights
      else if split then Keywords (map fst weights)
      else Joined (join_newline (map fst weights)))"

text \<open>
  \<^verbatim>\<open>mz_keywords(text, blocksize, scores, split, weighted, threshold)\<close> on the tokens of
  \<open>text\<close>. The counter cannot raise KeyError here, the vocabulary holding every word. A
  count matrix without rows (no tokens, or a negative \<open>blocksize\<close>) ends the call with
  an exception, see \<open>ScalarShapeError\<close>.
\<close>

definition mz_keywords ::
  "string list \<Rightarrow> int \<Rightarrow> bool \<Rightarrow> bool \<Rightarrow> bool \<Rightarrow> threshold \<Rightarrow> error + result" where
  "mz_keywords words blocksize scores split weighted threshold =
     (let vocab = vocab_of words
      in case count_freqs_by_blocks words vocab blocksize of
           Inl e \<Rightarrow> Inl e
         | Inr word_counts \<Rightarrow>
             if word_counts = [] then Inl ScalarShapeError
             else Inr (format_result scores split
                    (keyword_weights vocab (mz_scores word_counts blocksize weighted)
                       (resolve_threshold (length word_counts) threshold))))"

subsection \<open>Definitions that follow the specification\<close>

text \<open>
  The analytic entropy as the specification words it, with \<open>p = m / B\<close> where the source
  has \<open>p = m / n\<close>: zero for \<open>n = 1\<close>, else the sum over \<open>m\<close> from 1 to \<open>min(B, n)\<close> of
  \<open>-n_blocks * (p * log2(p)) * P(m)\<close>.
\<close>

definition spec_element :: "int \<Rightarrow> int \<Rightarrow> int \<Rightarrow> int \<Rightarrow> fl" where
  "spec_element blocksize n_words n m =
     (let p = div_np (of_int m) (of_int blocksize)
      in fl_mul (fl_mul p (fl_log2 p)) (marginal_prob blocksize n_words n m))"

definition spec_analytic_entropy :: "int \<Rightarrow> int \<Rightarrow> int \<Rightarrow> int \<Rightarrow> fl" where
  "spec_analytic_entropy blocksize n_blocks n_words n =
     (if n = 1 then Num 0
      else fl_mul (Num (of_int (- n_blocks)))
             (fl_sum (map (spec_element blocksize n_words n) [1 .. min blocksize n])))"

text \<open>
  Splitting a string on newline characters, as \<^verbatim>\<open>str.split('\n')\<close> does: the pieces
  between the separators, one more than there are separators, so one empty piece for the
  empty string.
\<close>

fun split_newline :: "string \<Rightarrow> string list" where
  "split_newline [] = [[]]"
| "split_newline (c # cs) =
     (if c = CHR 0x0A then [] # split_newline cs
      else case split_newline cs of
             [] \<Rightarrow> [[c]]
           | piece # pieces \<Rightarrow> (c # piece) # pieces)"

text \<open>
  The order of the result list: the score does not increase, and of two entries with the
  same score the one with the smaller word (in the order of the vocabulary) comes first.
\<close>

definition ranked :: "string \<times> fl \<Rightarrow> string \<times> fl \<Rightarrow> bool" where
  "ranked x y = (fl_ge (snd x) (snd y) \<and> (snd x = snd y \<longrightarrow> fst x < fst y))"

text \<open>
  The hypergeometric mass \<open>C(n, m) C(N - n, B - m) / C(N, B)\<close>, the quotient taken as a
  double: for \<open>B > N\<close> no block of size \<open>B\<close> exists, \<open>C(N, B)\<close> is zero and the
  quotient \<open>0 / 0\<close> is NaN.
\<close>

definition hypergeometric :: "nat \<Rightarrow> nat \<Rightarrow> nat \<Rightarrow> nat \<Rightarrow> fl" where
  "hypergeometric B N n m =
     div_np (real (n choose m) * real ((N - n) choose (B - m))) (real (N choose B))"

section \<open>The block frequency counter\<close>

subsection \<open>The dictionary and the inner loop\<close>

lemma fold_enumerate_lookup:
  "fold (\<lambda>(i, word) d. d(word \<mapsto> i)) (enumerate n vocab) d0 w = Some i \<Longrightarrow>
     d0 w = Some i \<or> (n \<le> i \<and> i < n + length vocab \<and> vocab ! (i - n) = w)"
proof (induction vocab arbitrary: n d0)
  case Nil
  then show ?case by simp
next
  case (Cons v vs)
  from Cons.prems have "fold (\<lambda>(i, word) d. d(word \<mapsto> i)) (enumerate (Suc n) vs) (d0(v \<mapsto> n)) w = Some i"
    by (simp del: fun_upd_apply)
  from Cons.IH [OF this] show ?case
    by (auto split: if_splits simp: nth_Cons')
qed

lemma fold_enumerate_dom:
  "dom (fold (\<lambda>(i, word) d. d(word \<mapsto> i)) (enumerate n vocab) d0) = dom d0 \<union> set vocab"
  by (induction vocab arbitrary: n d0) auto

lemma word2ind_Some: "word2ind vocab w = Some i \<Longrightarrow> i < length vocab \<and> vocab ! i = w"
  using fold_enumerate_lookup [of 0 vocab Map.empty w i] by (simp add: word2ind_def)

lemma dom_word2ind: "dom (word2ind vocab) = set vocab"
  by (simp add: word2ind_def fold_enumerate_dom)

lemma word2ind_member:
  "w \<in> set vocab \<Longrightarrow> \<exists>i. word2ind vocab w = Some i"
  using dom_word2ind [of vocab] by auto


lemma count_block_total:
  "set ws \<subseteq> dom d \<Longrightarrow> \<exists>counts'. count_block d ws counts = Inr counts'"
  by (induction ws arbitrary: counts) (auto split: option.splits)

lemma count_block_nth:
  "count_block d ws counts = Inr counts' \<Longrightarrow> j < length counts \<Longrightarrow>
     counts' ! j = counts ! j + length (filter (\<lambda>w. d w = Some j) ws)"
proof (induction ws arbitrary: counts)
  case Nil
  then show ?case by simp
next
  case (Cons w ws)
  then show ?case
    by (auto split: option.splits simp: nth_list_update)
qed

lemma count_block_sum:
  "count_block d ws counts = Inr counts' \<Longrightarrow> (\<forall>w j. d w = Some j \<longrightarrow> j < length counts) \<Longrightarrow>
     sum_list counts' = sum_list counts + length ws"
proof (induction ws arbitrary: counts)
  case Nil
  then show ?case by simp
next
  case (Cons w ws)
  from Cons.prems obtain j where j: "d w = Some j" and
    r: "count_block d ws (counts[j := counts ! j + 1]) = Inr counts'"
    by (auto split: option.splits)
  from j Cons.prems have jl: "j < length counts" by blast
  have "sum_list counts' = sum_list (counts[j := counts ! j + 1]) + length ws"
    using Cons.IH [OF r] Cons.prems(2) by simp
  moreover have "sum_list (counts[j := counts ! j + 1]) = sum_list counts + 1"
    using jl by (simp add: sum_list_update)
  ultimately show ?case by simp
qed


subsection \<open>The outer loop\<close>

lemma count_rows_total:
  "set words \<subseteq> dom d \<Longrightarrow> \<exists>M. count_rows d nv words bs i = Inr M"
proof (induction d nv words bs i rule: count_rows.induct)
  case (1 d nv words bs i)
  show ?case
  proof (cases "bs = 0 \<or> length words \<le> i")
    case True
    then show ?thesis by (simp add: count_rows.simps)
  next
    case False
    have "set (take bs (drop i words)) \<subseteq> dom d"
      using "1.prems" set_take_subset set_drop_subset by fast
    then obtain counts where c: "count_block d (take bs (drop i words)) (replicate nv 0) = Inr counts"
      using count_block_total by blast
    from "1.IH" [OF False c "1.prems"] obtain M where "count_rows d nv words bs (i + bs) = Inr M"
      by blast
    with False c show ?thesis
      by (subst count_rows.simps) simp
  qed
qed

lemma count_rows_step:
  assumes "count_rows d nv words bs i = Inr M" and "0 < bs" and "i < length words"
  obtains counts M' where "M = counts # M'"
    and "count_block d (take bs (drop i words)) (replicate nv 0) = Inr counts"
    and "count_rows d nv words bs (i + bs) = Inr M'"
  using assms by (subst (asm) count_rows.simps) (auto split: sum.splits)

lemma count_rows_done:
  "length words \<le> i \<Longrightarrow> count_rows d nv words bs i = Inr []"
  by (simp add: count_rows.simps)

lemma length_count_rows:
  "count_rows d nv words bs i = Inr M \<Longrightarrow> 0 < bs \<Longrightarrow>
     length M = (length words - i + bs - 1) div bs"
proof (induction d nv words bs i arbitrary: M rule: count_rows.induct)
  case (1 d nv words bs i)
  show ?case
  proof (cases "length words \<le> i")
    case True
    with "1.prems" show ?thesis by (simp add: count_rows_done)
  next
    case False
    then have il: "i < length words" by simp
    from count_rows_step [OF "1.prems"(1) "1.prems"(2) il] obtain counts M' where
      M: "M = counts # M'"
      and c: "count_block d (take bs (drop i words)) (replicate nv 0) = Inr counts"
      and r: "count_rows d nv words bs (i + bs) = Inr M'" by blast
    have "length M' = (length words - (i + bs) + bs - 1) div bs"
      using "1.IH" [OF _ c r "1.prems"(2)] False "1.prems"(2) by simp
    moreover have "(length words - i + bs - 1) div bs = Suc ((length words - (i + bs) + bs - 1) div bs)"
    proof -
      obtain k where k: "length words - i = Suc k" using il by (cases "length words - i") auto
      have "(length words - i + bs - 1) div bs = (k + bs) div bs" using k by simp
      also have "\<dots> = Suc (k div bs)" using "1.prems"(2) by simp
      finally have a: "(length words - i + bs - 1) div bs = Suc (k div bs)" .
      show ?thesis
      proof (cases "bs \<le> k")
        case True
        then have "length words - (i + bs) + bs - 1 = k" using k by simp
        with a show ?thesis by simp
      next
        case False
        then have "length words - (i + bs) = 0" using k by simp
        moreover have "k div bs = 0" using False by simp
        moreover have "(bs - 1) div bs = 0" using "1.prems"(2) by simp
        ultimately show ?thesis using a by simp
      qed
    qed
    ultimately show ?thesis using M by simp
  qed
qed


lemma count_rows_column:
  "count_rows d nv words bs i = Inr M \<Longrightarrow> 0 < bs \<Longrightarrow> j < nv \<Longrightarrow>
     column_sum M j = length (filter (\<lambda>w. d w = Some j) (drop i words))"
proof (induction d nv words bs i arbitrary: M rule: count_rows.induct)
  case (1 d nv words bs i)
  show ?case
  proof (cases "length words \<le> i")
    case True
    with "1.prems" show ?thesis by (simp add: count_rows_done column_sum_def)
  next
    case False
    then have il: "i < length words" by simp
    from count_rows_step [OF "1.prems"(1) "1.prems"(2) il] obtain counts M' where
      M: "M = counts # M'"
      and c: "count_block d (take bs (drop i words)) (replicate nv 0) = Inr counts"
      and r: "count_rows d nv words bs (i + bs) = Inr M'" by blast
    have "counts ! j = length (filter (\<lambda>w. d w = Some j) (take bs (drop i words)))"
      using count_block_nth [OF c, of j] "1.prems"(3) by simp
    moreover have "column_sum M' j = length (filter (\<lambda>w. d w = Some j) (drop (i + bs) words))"
      using "1.IH" [OF _ c r "1.prems"(2) "1.prems"(3)] False "1.prems"(2) by simp
    moreover have "take bs (drop i words) @ drop (i + bs) words
        = take bs (drop i words) @ drop bs (drop i words)"
      by (simp add: add.commute)
    then have "drop i words = take bs (drop i words) @ drop (i + bs) words"
      by (simp only: append_take_drop_id)
    then have "length (filter (\<lambda>w. d w = Some j) (drop i words)) =
        length (filter (\<lambda>w. d w = Some j) (take bs (drop i words)))
        + length (filter (\<lambda>w. d w = Some j) (drop (i + bs) words))"
      by (metis filter_append length_append)
    ultimately show ?thesis using M by (simp add: column_sum_def)
  qed
qed

lemma count_rows_row_sum:
  "count_rows d nv words bs i = Inr M \<Longrightarrow> 0 < bs \<Longrightarrow> (\<forall>w j. d w = Some j \<longrightarrow> j < nv) \<Longrightarrow>
     b < length M \<Longrightarrow> sum_list (M ! b) = min bs (length words - (i + b * bs))"
proof (induction d nv words bs i arbitrary: M b rule: count_rows.induct)
  case (1 d nv words bs i)
  show ?case
  proof (cases "length words \<le> i")
    case True
    with "1.prems" show ?thesis by (simp add: count_rows_done)
  next
    case False
    then have il: "i < length words" by simp
    from count_rows_step [OF "1.prems"(1) "1.prems"(2) il] obtain counts M' where
      M: "M = counts # M'"
      and c: "count_block d (take bs (drop i words)) (replicate nv 0) = Inr counts"
      and r: "count_rows d nv words bs (i + bs) = Inr M'" by blast
    show ?thesis
    proof (cases b)
      case 0
      have "sum_list counts = sum_list (replicate nv (0::nat)) + length (take bs (drop i words))"
        using count_block_sum [OF c] "1.prems"(3) by simp
      then show ?thesis using 0 M by (simp add: sum_list_replicate)
    next
      case (Suc b')
      then have "b' < length M'" using "1.prems"(4) M by simp
      then have "sum_list (M' ! b') = min bs (length words - (i + bs + b' * bs))"
        using "1.IH" [OF _ c r "1.prems"(2) "1.prems"(3)] False "1.prems"(2) by simp
      then show ?thesis using Suc M by (simp add: add.assoc)
    qed
  qed
qed


subsection \<open>Shape and sums of the count matrix\<close>

lemma count_list_filter: "count_list xs w = length (filter (\<lambda>x. x = w) xs)"
  by (induction xs) auto

lemma ceiling_div_nat:
  assumes "0 < b"
  shows "\<lceil>real n / real b\<rceil> = int ((n + b - 1) div b)"
proof -
  define z where "z = (n + b - 1) div b"
  have "z * b \<le> n + b - 1" unfolding z_def by simp
  then have "z * b < n + b" using assms by simp
  then have "real (z * b) < real (n + b)" by (simp only: of_nat_less_iff)
  then have lo: "(real z - 1) * real b < real n" by (simp add: algebra_simps)
  have "n + b - 1 < b + z * b" unfolding z_def using assms by (simp add: dividend_less_div_times)
  then have "n \<le> z * b" using assms by simp
  then have "real n \<le> real (z * b)" by (simp only: of_nat_le_iff)
  then have hi: "real n \<le> real z * real b" by simp
  have rb: "0 < real b" using assms by simp
  have "real n / real b \<le> real z" using hi rb by (simp add: pos_divide_le_eq)
  moreover have "real z - 1 < real n / real b" using lo rb by (simp add: pos_less_divide_eq)
  ultimately have "\<lceil>real n / real b\<rceil> = int z"
    by (intro ceiling_unique) simp_all
  then show ?thesis by (simp add: z_def)
qed

lemma count_freqs_by_blocks_returns:
  assumes "1 \<le> blocksize" and "set words \<subseteq> set vocab"
  shows "\<exists>word_counts. count_freqs_by_blocks words vocab blocksize = Inr word_counts"
proof -
  from assms(2) have "set words \<subseteq> dom (word2ind vocab)" by (simp add: dom_word2ind)
  then obtain M where "count_rows (word2ind vocab) (length vocab) words (nat blocksize) 0 = Inr M"
    using count_rows_total by blast
  then show ?thesis using assms(1) by (simp add: count_freqs_by_blocks_def)
qed

lemma count_freqs_length:
  assumes "count_freqs_by_blocks words vocab blocksize = Inr word_counts" and "1 \<le> blocksize"
  shows "int (length word_counts) = \<lceil>real (length words) / real_of_int blocksize\<rceil>"
proof -
  have bs: "0 < nat blocksize" using assms(2) by simp
  have M: "count_rows (word2ind vocab) (length vocab) words (nat blocksize) 0 = Inr word_counts"
    using assms by (simp add: count_freqs_by_blocks_def)
  have "length word_counts = (length words + nat blocksize - 1) div nat blocksize"
    using length_count_rows [OF M bs] by simp
  then show ?thesis
    using ceiling_div_nat [OF bs, of "length words"] assms(2) by simp
qed

lemma count_freqs_nonempty:
  assumes "count_freqs_by_blocks words vocab blocksize = Inr word_counts" and "1 \<le> blocksize"
    and "words \<noteq> []"
  shows "word_counts \<noteq> []"
proof -
  have bs: "0 < nat blocksize" using assms(2) by simp
  have M: "count_rows (word2ind vocab) (length vocab) words (nat blocksize) 0 = Inr word_counts"
    using assms by (simp add: count_freqs_by_blocks_def)
  from assms(3) obtain k where k: "length words = Suc k" by (cases words) auto
  have "length word_counts = (length words + nat blocksize - 1) div nat blocksize"
    using length_count_rows [OF M bs] by simp
  then have "length word_counts = Suc (k div nat blocksize)" using k bs by simp
  then show ?thesis by auto
qed

text \<open>
  Claim C7. For a token sequence, a vocabulary that holds all its words and a blocksize of
  at least one, the counter returns a matrix with \<open>ceil(len(tokens) / blocksize)\<close> rows,
  and for every vocabulary word the column that \<open>word2ind\<close> gives it sums to the number
  of occurrences of the word in the token sequence.
\<close>

theorem count_freqs_by_blocks_rows_and_totals:
  assumes "1 \<le> blocksize" and "set words \<subseteq> set vocab"
  shows "\<exists>word_counts. count_freqs_by_blocks words vocab blocksize = Inr word_counts
           \<and> int (length word_counts) = \<lceil>real (length words) / real_of_int blocksize\<rceil>
           \<and> (\<forall>w\<in>set vocab. \<exists>j<length vocab. word2ind vocab w = Some j \<and> vocab ! j = w
                   \<and> column_sum word_counts j = count_list words w)"
proof -
  let ?d = "word2ind vocab" and ?bs = "nat blocksize"
  have bs: "0 < ?bs" using assms(1) by simp
  from count_freqs_by_blocks_returns [OF assms] obtain M where
    r: "count_freqs_by_blocks words vocab blocksize = Inr M" by blast
  then have M: "count_rows ?d (length vocab) words ?bs 0 = Inr M"
    using assms(1) by (simp add: count_freqs_by_blocks_def)
  have l: "int (length M) = \<lceil>real (length words) / real_of_int blocksize\<rceil>"
    by (rule count_freqs_length [OF r assms(1)])
  have c: "\<exists>j<length vocab. ?d w = Some j \<and> vocab ! j = w \<and> column_sum M j = count_list words w"
    if w: "w \<in> set vocab" for w
  proof -
    from word2ind_member [OF w] obtain j where j: "?d w = Some j" by blast
    from word2ind_Some [OF j] have jl: "j < length vocab" and jw: "vocab ! j = w" by simp_all
    have "(\<lambda>x. ?d x = Some j) = (\<lambda>x. x = w)"
    proof
      fix x show "(?d x = Some j) = (x = w)"
        using j jw word2ind_Some [of vocab x j] by auto
    qed
    then have "column_sum M j = count_list words w"
      using count_rows_column [OF M bs jl] by (simp add: count_list_filter)
    with j jl jw show ?thesis by blast
  qed
  from r l c show ?thesis by blast
qed

text \<open>Three tokens in blocks of two: two rows, the column sums are 2 and 1.\<close>

theorem count_freqs_by_blocks_rows_and_totals_witness:
  "(1::int) \<le> 2 \<and> set [''a'', ''b'', ''a''] \<subseteq> set [''a'', ''b''] \<and>
   (\<exists>word_counts. count_freqs_by_blocks [''a'', ''b'', ''a''] [''a'', ''b''] 2 = Inr word_counts
      \<and> length word_counts = 2 \<and> column_sum word_counts 0 = 2 \<and> column_sum word_counts 1 = 1)"
proof -
  let ?ws = "[''a'', ''b'', ''a'']" and ?vs = "[''a'', ''b'']"
  have h1: "(1::int) \<le> 2" by simp
  have h2: "set ?ws \<subseteq> set ?vs" by simp
  from count_freqs_by_blocks_rows_and_totals [OF h1 h2] obtain M where
    M: "count_freqs_by_blocks ?ws ?vs 2 = Inr M"
    and l: "int (length M) = \<lceil>real (length ?ws) / real_of_int 2\<rceil>"
    and c: "\<forall>w\<in>set ?vs. \<exists>j<length ?vs. word2ind ?vs w = Some j \<and> ?vs ! j = w
              \<and> column_sum M j = count_list ?ws w"
    by blast
  have "length M = 2" using l by simp
  moreover have "column_sum M 0 = 2"
  proof -
    from c have "\<exists>j<length ?vs. word2ind ?vs ''a'' = Some j \<and> ?vs ! j = ''a''
              \<and> column_sum M j = count_list ?ws ''a''"
      by (rule bspec) simp
    then obtain j where "j < length ?vs" "?vs ! j = ''a''"
      "column_sum M j = count_list ?ws ''a''" by blast
    then show ?thesis by (cases j) auto
  qed
  moreover have "column_sum M 1 = 1"
  proof -
    from c have "\<exists>j<length ?vs. word2ind ?vs ''b'' = Some j \<and> ?vs ! j = ''b''
              \<and> column_sum M j = count_list ?ws ''b''"
      by (rule bspec) simp
    then obtain j where "j < length ?vs" "?vs ! j = ''b''"
      "column_sum M j = count_list ?ws ''b''" by blast
    then show ?thesis by (cases j) auto
  qed
  ultimately show ?thesis using h1 h2 M by blast
qed

text \<open>
  Claim C9. For a non-empty token sequence and a blocksize of at least one, the matrix
  the counter returns has a row, every row but the last sums to \<open>blocksize\<close> and the
  last row sums to \<open>len(tokens) - blocksize * (n_blocks - 1)\<close>: a row totals the tokens
  of its block.
\<close>

theorem count_freqs_by_blocks_row_sums:
  assumes "words \<noteq> []" and "1 \<le> blocksize"
    and "count_freqs_by_blocks words vocab blocksize = Inr word_counts"
  shows "word_counts \<noteq> [] \<and> (\<forall>b<length word_counts. sum_list (word_counts ! b) =
           (if b + 1 < length word_counts then nat blocksize
            else length words - nat blocksize * (length word_counts - 1)))"
proof -
  let ?d = "word2ind vocab" and ?bs = "nat blocksize" and ?n = "length words"
  have bs: "0 < ?bs" using assms(2) by simp
  have n: "0 < ?n" using assms(1) by simp
  have M: "count_rows ?d (length vocab) words ?bs 0 = Inr word_counts"
    using assms(2,3) by (simp add: count_freqs_by_blocks_def)
  have len: "length word_counts = (?n + ?bs - 1) div ?bs"
    using length_count_rows [OF M bs] by simp
  obtain k where k: "?n = Suc k" using n by (cases ?n) auto
  have len': "length word_counts = Suc (k div ?bs)"
    using len k bs by simp
  have rs: "sum_list (word_counts ! b) = min ?bs (?n - b * ?bs)" if "b < length word_counts" for b
    using count_rows_row_sum [OF M bs _ that] word2ind_Some by fastforce
  have "sum_list (word_counts ! b) =
           (if b + 1 < length word_counts then ?bs else ?n - ?bs * (length word_counts - 1))"
    if b: "b < length word_counts" for b
  proof (cases "b + 1 < length word_counts")
    case True
    then have "Suc b \<le> k div ?bs" using len' by simp
    then have "Suc b * ?bs \<le> (k div ?bs) * ?bs" by (rule mult_le_mono1)
    also have "\<dots> \<le> k" by simp
    finally have "?bs + b * ?bs \<le> k" by simp
    then have "?bs \<le> ?n - b * ?bs" using k by simp
    with rs [OF b] True show ?thesis by simp
  next
    case False
    with b len' have be: "b = k div ?bs" by simp
    have "k = (k div ?bs) * ?bs + k mod ?bs" by simp
    moreover have "k mod ?bs < ?bs" using bs by simp
    ultimately have "k - b * ?bs < ?bs" using be
      by (metis add_diff_cancel_left')
    moreover have "b * ?bs \<le> k" using be by simp
    ultimately have "?n - b * ?bs \<le> ?bs" using k by simp
    with rs [OF b] False be len' show ?thesis by (simp add: mult.commute)
  qed
  moreover have "word_counts \<noteq> []" using len' by auto
  ultimately show ?thesis by blast
qed

text \<open>The same three tokens: the first row sums to 2, the last to 1.\<close>

theorem count_freqs_by_blocks_row_sums_witness:
  "[''a'', ''b'', ''a''] \<noteq> [] \<and> (1::int) \<le> 2 \<and>
   count_freqs_by_blocks [''a'', ''b'', ''a''] [''a'', ''b''] 2 = Inr [[1, 1], [1, 0]] \<and>
   sum_list ([[1, 1], [1, 0 :: nat]] ! 0) = 2 \<and> sum_list ([[1, 1], [1, 0 :: nat]] ! 1) = 3 - 2 * 1"
proof -
  let ?ws = "[''a'', ''b'', ''a'']" and ?vs = "[''a'', ''b'']"
  have h1: "?ws \<noteq> []" by simp
  have h2: "(1::int) \<le> 2" by simp
  have h3: "count_freqs_by_blocks ?ws ?vs 2 = Inr [[1, 1], [1, 0]]" by code_simp
  from count_freqs_by_blocks_row_sums [OF h1 h2 h3]
  have r: "\<forall>b<length [[1, 1], [1, 0 :: nat]]. sum_list ([[1, 1], [1, 0]] ! b) =
           (if b + 1 < length [[1, 1], [1, 0 :: nat]] then nat 2
            else length ?ws - nat 2 * (length [[1, 1], [1, 0 :: nat]] - 1))" by blast
  from r have "sum_list ([[1, 1], [1, 0 :: nat]] ! 0) = 2" by simp
  moreover from r have "sum_list ([[1, 1], [1, 0 :: nat]] ! 1) = 3 - 2 * 1" by simp
  ultimately show ?thesis using h1 h2 h3 by blast
qed

section \<open>Log-binomials and the marginal probability\<close>

lemma ln_choose:
  assumes "k \<le> n"
  shows "ln (real (n + 1)) + ln (fact (n - k) * fact k / fact (n + 1)) = - ln (real (n choose k))"
proof -
  have c: "real (n choose k) = fact n / (fact k * fact (n - k))"
    using binomial_fact [OF assms, where ?'a = real] by simp
  have pos: "0 < real (n choose k)" using assms by simp
  have nz: "real (n + 1) \<noteq> 0" by simp
  have f: "(fact (n + 1) :: real) = real (n + 1) * fact n" by simp
  have "real (n + 1) * (fact (n - k) * fact k / fact (n + 1))
          = (real (n + 1) * (fact (n - k) * fact k)) / (real (n + 1) * fact n)"
    unfolding f by (rule times_divide_eq_right)
  also have "\<dots> = fact (n - k) * fact k / fact n"
    using nz by (rule nonzero_mult_divide_mult_cancel_left)
  also have "\<dots> = inverse (real (n choose k))"
    unfolding c by (simp add: field_simps)
  finally have e: "real (n + 1) * (fact (n - k) * fact k / fact (n + 1)) = inverse (real (n choose k))" .
  have "ln (real (n + 1)) + ln (fact (n - k) * fact k / fact (n + 1))
          = ln (real (n + 1) * (fact (n - k) * fact k / fact (n + 1)))"
    by (subst ln_mult) simp_all
  also have "\<dots> = - ln (real (n choose k))"
    unfolding e using pos by (simp add: ln_inverse)
  finally show ?thesis .
qed

lemma log_combinations_choose:
  assumes "k \<le> n"
  shows "log_combinations_inner (int n) (int k) = Num (ln (real (n choose k)))"
proof -
  have a: "nat (int n - int k + 1 - 1) = n - k" using assms by simp
  have b: "nat (int k + 1 - 1) = k" by simp
  have c: "nat (int n - int k + 1 + (int k + 1) - 1) = n + 1" using assms by simp
  have "betaln (int n - int k + 1) (int k + 1) = Num (ln (fact (n - k) * fact k / fact (n + 1)))"
    using assms unfolding betaln_def a b c by simp
  moreover have "log_np (of_int (int n + 1)) = Num (ln (real (n + 1)))"
    by (simp add: log_np_def add.commute)
  ultimately show ?thesis
    unfolding log_combinations_inner_def using ln_choose [OF assms] by simp
qed

lemma log_combinations_none:
  assumes "n < k"
  shows "log_combinations_inner (int n) (int k) = NInf"
proof -
  have "betaln (int n - int k + 1) (int k + 1) = PInf"
    using assms by (simp add: betaln_def)
  moreover have "log_np (of_int (int n + 1)) = Num (ln (real (n + 1)))"
    by (simp add: log_np_def add.commute)
  ultimately show ?thesis by (simp add: log_combinations_inner_def)
qed

lemma marginal_prob_value:
  assumes "m \<le> n" and "m \<le> B" and "n \<le> N"
  shows "marginal_prob (int B) (int N) (int n) (int m) = hypergeometric B N n m"
proof -
  have d1: "int N - int n = int (N - n)" using assms(3) by simp
  have d2: "int B - int m = int (B - m)" using assms(2) by simp
  have l1: "log_combinations_inner (int n) (int m) = Num (ln (real (n choose m)))"
    by (rule log_combinations_choose [OF assms(1)])
  have p1: "0 < real (n choose m)" using assms(1) by simp
  show ?thesis
  proof (cases "B - m \<le> N - n")
    case True
    then have BN: "B \<le> N" using assms by linarith
    have l2: "log_combinations_inner (int (N - n)) (int (B - m)) = Num (ln (real ((N - n) choose (B - m))))"
      by (rule log_combinations_choose [OF True])
    have l3: "log_combinations_inner (int N) (int B) = Num (ln (real (N choose B)))"
      by (rule log_combinations_choose [OF BN])
    have p2: "0 < real ((N - n) choose (B - m))" using True by simp
    have p3: "0 < real (N choose B)" using BN by simp
    have "exp (ln (real (n choose m)) + ln (real ((N - n) choose (B - m))) - ln (real (N choose B)))
            = real (n choose m) * real ((N - n) choose (B - m)) / real (N choose B)"
      using p1 p2 p3 by (simp only: exp_diff exp_add exp_ln)
    then show ?thesis
      using p3 by (simp add: marginal_prob_def d1 d2 l1 l2 l3 fl_sub_def hypergeometric_def div_np_def)
  next
    case False
    then have z: "(N - n) choose (B - m) = 0" by (simp add: binomial_eq_0)
    have l2: "log_combinations_inner (int (N - n)) (int (B - m)) = NInf"
      using False by (intro log_combinations_none) simp
    show ?thesis
    proof (cases "B \<le> N")
      case True
      have l3: "log_combinations_inner (int N) (int B) = Num (ln (real (N choose B)))"
        by (rule log_combinations_choose [OF True])
      have p3: "0 < real (N choose B)" using True by simp
      show ?thesis
        using p3 by (simp add: marginal_prob_def d1 d2 l1 l2 l3 fl_sub_def hypergeometric_def div_np_def z)
    next
      case False
      then have l3: "log_combinations_inner (int N) (int B) = NInf"
        by (intro log_combinations_none) simp
      have "N choose B = 0" using False by (simp add: binomial_eq_0)
      then show ?thesis
        by (simp add: marginal_prob_def d1 d2 l1 l2 l3 fl_sub_def hypergeometric_def div_np_def z)
    qed
  qed
qed



lemma choose_values: "(2::nat) choose 1 = 2" "(4::nat) choose 2 = 6" "(1::nat) choose 1 = 1"
  "(0::nat) choose 1 = 0" "(1::nat) choose 2 = 0"
  by code_simp+


section \<open>The analytic entropy and its cache\<close>

lemma analytic_all_cached:
  assumes "cache 1 = Some (Num 0)"
    and "\<forall>k r. cache k = Some r \<longrightarrow> r = (if k = 1 then Num 0 else entropy_sum B nb N k)"
  shows "analytic_all B nb N cache ns
           = map (\<lambda>n. if n = 1 then Num 0 else entropy_sum B nb N n) ns"
  using assms
proof (induction ns arbitrary: cache)
  case Nil
  then show ?case by simp
next
  case (Cons n ns)
  show ?case
  proof (cases "cache n")
    case None
    then have n1: "n \<noteq> 1" using Cons.prems(1) by auto
    let ?c = "cache(n \<mapsto> entropy_sum B nb N n)"
    have "?c 1 = Some (Num 0)" using n1 Cons.prems(1) by simp
    moreover have "\<forall>k r. ?c k = Some r \<longrightarrow> r = (if k = 1 then Num 0 else entropy_sum B nb N k)"
    proof (intro allI impI)
      fix k r assume kr: "?c k = Some r"
      show "r = (if k = 1 then Num 0 else entropy_sum B nb N k)"
      proof (cases "k = n")
        case True
        then show ?thesis using kr n1 by simp
      next
        case False
        then have "cache k = Some r" using kr by simp
        then show ?thesis using Cons.prems(2) by blast
      qed
    qed
    ultimately have "analytic_all B nb N ?c ns
           = map (\<lambda>n. if n = 1 then Num 0 else entropy_sum B nb N n) ns"
      by (rule Cons.IH)
    then show ?thesis using None n1 by (simp add: analytic_entropy_def Let_def)
  next
    case (Some r)
    then have "r = (if n = 1 then Num 0 else entropy_sum B nb N n)" using Cons.prems(2) by blast
    moreover have "analytic_all B nb N cache ns
           = map (\<lambda>n. if n = 1 then Num 0 else entropy_sum B nb N n) ns"
      using Cons.prems by (rule Cons.IH)
    ultimately show ?thesis using Some by (simp add: analytic_entropy_def)
  qed
qed

lemma analytic_all_value:
  "analytic_all B nb N initial_cache ns
     = map (\<lambda>n. if n = 1 then Num 0 else entropy_sum B nb N n) ns"
  by (rule analytic_all_cached) (simp_all add: initial_cache_def)

lemma log2_inverse_power: "log 2 (1 / 2 ^ k) = - real k"
proof -
  have "log 2 (1 / 2 ^ k) = - log 2 (2 ^ k)"
    by (rule log_recip)
  then show ?thesis by (simp add: log_nat_power)
qed

lemma log2_half: "log 2 (1 / 2) = - 1"
  using log2_inverse_power [of 1] by simp

lemma marginal_1_2_2_1: "marginal_prob 1 2 2 1 = Num 1"
  using marginal_prob_value [of 1 2 1 2] by (simp add: hypergeometric_def div_np_def choose_values)

text \<open>
  Claim C1, amended. Within an invocation (the dictionary starts as \<open>{1: 0.0}\<close> and is
  carried from call to call) the analytic entropy of a total \<open>n\<close> is exactly zero for
  \<open>n = 1\<close>, and otherwise the sum over \<open>m\<close> from 1 to \<open>min(B, n)\<close> of
  \<open>-n_blocks * (p * log2(p)) * P(m)\<close> with \<open>p = m / n\<close>, whatever was cached before.
\<close>

theorem analytic_entropy_formula:
  "analytic_all blocksize n_blocks n_words initial_cache ns =
     map (\<lambda>n. if n = 1 then Num 0
              else fl_mul (Num (- real_of_int n_blocks))
                     (fl_sum (map (\<lambda>m. let p = div_np (real_of_int m) (real_of_int n)
                                        in fl_mul (fl_mul p (fl_log2 p))
                                             (marginal_prob blocksize n_words n m))
                                [1 .. min blocksize n]))) ns"
proof -
  have "entropy_sum blocksize n_blocks n_words n =
          fl_mul (Num (- real_of_int n_blocks))
                     (fl_sum (map (\<lambda>m. let p = div_np (real_of_int m) (real_of_int n)
                                        in fl_mul (fl_mul p (fl_log2 p))
                                             (marginal_prob blocksize n_words n m))
                                [1 .. min blocksize n]))" for n
    by (simp add: entropy_sum_def entropy_element_def [abs_def])
  then show ?thesis by (simp add: analytic_all_value)
qed

text \<open>Blocks of one token in a document of two: totals 1, 2 and 2 again, from the cache.\<close>

theorem analytic_entropy_formula_witness:
  "analytic_all 1 2 2 initial_cache [1, 2, 2] = [Num 0, Num 1, Num 1]"
proof -
  have "analytic_all 1 2 2 initial_cache [1, 2, 2] =
     map (\<lambda>n. if n = 1 then Num 0
              else fl_mul (Num (- real_of_int 2))
                     (fl_sum (map (\<lambda>m. let p = div_np (real_of_int m) (real_of_int n)
                                        in fl_mul (fl_mul p (fl_log2 p))
                                             (marginal_prob 1 2 n m))
                                [1 .. min 1 n]))) [1, 2, 2]"
    by (rule analytic_entropy_formula)
  then show ?thesis
    by (simp add: marginal_1_2_2_1 div_np_def fl_sum_def Let_def log2_half)
qed

text \<open>
  Claim C1 as stated, with \<open>p = m / B\<close>, fails: for the document \<open>a a\<close> in blocks of
  one token the source gives 1 for the total 2, the formula of the specification gives 0.
\<close>

theorem analytic_entropy_formula_counterexample:
  "fst (analytic_entropy 1 2 2 initial_cache 2) \<noteq> spec_analytic_entropy 1 2 2 2"
proof -
  have "fst (analytic_entropy 1 2 2 initial_cache 2) = Num 1"
    by (simp add: analytic_entropy_def initial_cache_def entropy_sum_def entropy_element_def
        marginal_1_2_2_1 div_np_def fl_sum_def Let_def log2_half)
  moreover have "spec_analytic_entropy 1 2 2 2 = Num 0"
    by (simp add: spec_analytic_entropy_def spec_element_def
        marginal_1_2_2_1 div_np_def fl_sum_def)
  ultimately show ?thesis by simp
qed

section \<open>A document of one repeated word\<close>





























section \<open>Sums and comparisons of doubles\<close>

text \<open>
  Addition in the model is commutative and associative, so the order in which numpy adds
  the elements of an array does not matter.
\<close>

lemma fl_add_commute: "fl_add a b = fl_add b a"
  by (cases a; cases b) simp_all

lemma fl_add_assoc: "fl_add (fl_add a b) c = fl_add a (fl_add b c)"
  by (cases a; cases b; cases c) simp_all

lemma fl_gt_neg: "fl_gt (fl_neg a) (fl_neg b) = fl_gt b a"
  by (cases a; cases b) simp_all

lemma fl_gt_not_NaN: "fl_gt a b \<Longrightarrow> a \<noteq> NaN \<and> b \<noteq> NaN"
  by (cases a; cases b) simp_all

lemma fl_gt_ge: "fl_gt a b \<Longrightarrow> fl_ge a b \<and> a \<noteq> b"
  by (cases a; cases b) (simp_all add: fl_ge_def)

lemma fl_ge_trans: "fl_ge a b \<Longrightarrow> fl_ge b c \<Longrightarrow> fl_ge a c"
  by (cases a; cases b; cases c) (simp_all add: fl_ge_def)

lemma fl_ge_refl: "a \<noteq> NaN \<Longrightarrow> fl_ge a a"
  by (cases a) (simp_all add: fl_ge_def)

lemma not_gt_ge: "a \<noteq> NaN \<Longrightarrow> b \<noteq> NaN \<Longrightarrow> \<not> fl_gt b a \<Longrightarrow> fl_ge a b"
  by (simp add: fl_ge_def)

section \<open>Filtering and sorting the weights\<close>

lemma set_insort_weight: "set (insort_weight x ys) = insert x (set ys)"
  by (induction ys) auto

lemma set_sort_weights: "set (sort_weights ws) = set ws"
  unfolding sort_weights_def by (induction ws) (simp_all add: set_insort_weight)

lemma sorted_insort_weight:
  assumes "sorted_wrt ranked ys" and "\<forall>y\<in>set ys. fst x < fst y"
    and "snd x \<noteq> NaN" and "\<forall>y\<in>set ys. snd y \<noteq> NaN"
  shows "sorted_wrt ranked (insort_weight x ys)"
  using assms
proof (induction ys)
  case Nil
  then show ?case by simp
next
  case (Cons y ys)
  show ?case
  proof (cases "fl_gt (snd y) (snd x)")
    case True
    then have "ranked y x" using fl_gt_ge [OF True] by (simp add: ranked_def)
    moreover have "sorted_wrt ranked (insort_weight x ys)" using Cons by simp
    ultimately show ?thesis using True Cons.prems(1)
      by (simp add: fl_lt_def fl_gt_neg set_insort_weight)
  next
    case False
    have xy: "fl_ge (snd x) (snd y)" using False Cons.prems by (simp add: not_gt_ge)
    have "ranked x z" if "z \<in> set (y # ys)" for z
    proof -
      have "fl_ge (snd y) (snd z)"
      proof (cases "z = y")
        case True
        then show ?thesis using Cons.prems(4) by (simp add: fl_ge_refl)
      next
        case False
        then show ?thesis using that Cons.prems(1) by (auto simp: ranked_def)
      qed
      then have "fl_ge (snd x) (snd z)" using xy fl_ge_trans by blast
      moreover have "fst x < fst z" using that Cons.prems(2) by auto
      ultimately show ?thesis by (simp add: ranked_def)
    qed
    then show ?thesis using False Cons.prems(1) by (simp add: fl_lt_def fl_gt_neg)
  qed
qed

lemma sorted_sort_weights:
  assumes "sorted_wrt (<) (map fst ws)" and "\<forall>x\<in>set ws. snd x \<noteq> NaN"
  shows "sorted_wrt ranked (sort_weights ws)"
  using assms
proof (induction ws)
  case Nil
  then show ?case by (simp add: sort_weights_def)
next
  case (Cons x ws)
  have "sorted_wrt ranked (sort_weights ws)" using Cons by simp
  moreover have "\<forall>y\<in>set (sort_weights ws). fst x < fst y"
    using Cons.prems(1) by (auto simp: set_sort_weights)
  moreover have "\<forall>y\<in>set (sort_weights ws). snd y \<noteq> NaN"
    using Cons.prems(2) by (simp add: set_sort_weights)
  ultimately have "sorted_wrt ranked (insort_weight x (sort_weights ws))"
    using Cons.prems(2) by (intro sorted_insort_weight) simp_all
  then show ?case by (simp add: sort_weights_def)
qed

lemma sorted_fst_filter_zip:
  "sorted_wrt (<) vocab \<Longrightarrow> sorted_wrt (<) (map fst (filter P (zip vocab h)))"
proof (induction vocab arbitrary: h)
  case Nil
  then show ?case by simp
next
  case (Cons v vs)
  show ?case
  proof (cases h)
    case Nil
    then show ?thesis by simp
  next
    case (Cons s ss)
    have "sorted_wrt (<) (map fst (filter P (zip vs ss)))" using Cons.IH Cons.prems by simp
    moreover have "\<forall>x\<in>set (filter P (zip vs ss)). v < fst x"
      using Cons.prems by (auto dest: set_zip_leftD)
    ultimately show ?thesis using Cons by simp
  qed
qed

lemma sorted_vocab_of: "sorted_wrt (<) (vocab_of words)"
  by (simp add: vocab_of_def)

lemma set_vocab_of: "set (vocab_of words) = set words"
  by (simp add: vocab_of_def)

lemma keyword_weights_above:
  "x \<in> set (keyword_weights vocab h t) \<Longrightarrow> fl_gt (snd x) t \<and> x \<in> set (zip vocab h)"
  by (auto simp: keyword_weights_def set_sort_weights)

lemma keyword_weights_sorted:
  "sorted_wrt (<) vocab \<Longrightarrow> sorted_wrt ranked (keyword_weights vocab h t)"
  unfolding keyword_weights_def
  by (rule sorted_sort_weights) (auto simp: sorted_fst_filter_zip dest: fl_gt_not_NaN)

lemma keyword_weights_empty:
  "\<forall>s\<in>set h. \<not> fl_gt s t \<Longrightarrow> keyword_weights vocab h t = []"
proof -
  assume a: "\<forall>s\<in>set h. \<not> fl_gt s t"
  have "filter (\<lambda>(word, score). fl_gt score t) (zip vocab h) = []"
    using a by (auto simp: filter_empty_conv dest: set_zip_rightD)
  then show ?thesis by (simp add: keyword_weights_def sort_weights_def)
qed

section \<open>When the scorer returns\<close>

lemma mz_keywords_Inr:
  assumes "mz_keywords words blocksize scores split weighted threshold = Inr result"
  obtains word_counts where
    "count_freqs_by_blocks words (vocab_of words) blocksize = Inr word_counts"
    and "word_counts \<noteq> []" and "1 \<le> blocksize"
    and "result = format_result scores split
           (keyword_weights (vocab_of words) (mz_scores word_counts blocksize weighted)
              (resolve_threshold (length word_counts) threshold))"
proof -
  from assms obtain M where M: "count_freqs_by_blocks words (vocab_of words) blocksize = Inr M"
    and ne: "M \<noteq> []"
    and r: "result = format_result scores split
           (keyword_weights (vocab_of words) (mz_scores M blocksize weighted)
              (resolve_threshold (length M) threshold))"
    by (auto simp: mz_keywords_def Let_def split: sum.splits if_splits)
  have "1 \<le> blocksize"
  proof (rule ccontr)
    assume "\<not> 1 \<le> blocksize"
    then have "blocksize = 0 \<or> blocksize < 0" by arith
    then show False using M ne by (auto simp: count_freqs_by_blocks_def)
  qed
  with M ne r that show thesis by blast
qed

lemma mz_keywords_total:
  assumes "words \<noteq> []" and "1 \<le> blocksize"
  obtains word_counts where
    "count_freqs_by_blocks words (vocab_of words) blocksize = Inr word_counts"
    and "word_counts \<noteq> []"
    and "mz_keywords words blocksize scores split weighted threshold =
           Inr (format_result scores split
             (keyword_weights (vocab_of words) (mz_scores word_counts blocksize weighted)
                (resolve_threshold (length word_counts) threshold)))"
proof -
  have "set words \<subseteq> set (vocab_of words)" by (simp add: set_vocab_of)
  from count_freqs_by_blocks_returns [OF assms(2) this] obtain M where
    M: "count_freqs_by_blocks words (vocab_of words) blocksize = Inr M" by blast
  from count_freqs_nonempty [OF M assms(2,1)] have ne: "M \<noteq> []" .
  have "mz_keywords words blocksize scores split weighted threshold =
           Inr (format_result scores split
             (keyword_weights (vocab_of words) (mz_scores M blocksize weighted)
                (resolve_threshold (length M) threshold)))"
    using M ne by (simp add: mz_keywords_def)
  with M ne that show thesis by blast
qed

section \<open>Threshold, order and the empty result\<close>

lemma resolve_threshold_value:
  "resolve_threshold n threshold =
     (case threshold of
        Auto \<Rightarrow> Num (real n / (real n + 1) + 1 / 10 ^ 8)
      | Threshold t \<Rightarrow> t)"
proof -
  have "0 \<le> real n" by simp
  then have "real n + 1 \<noteq> 0" by linarith
  then show ?thesis by (simp add: resolve_threshold_def div_np_def split: threshold.splits)
qed

lemma upt_2: "[0..<2] = [0, 1]"
  by (simp add: upt_rec)

lemma scores_b_a: "mz_scores [[0, Suc 0], [Suc 0, 0]] blocksize weighted = [Num 0, Num 0]"
  by (simp add: mz_scores_def axis0_sum_def column_sum_def observed_entropy_def entropy_cell_def
     div_np_def fl_sum_def initial_cache_def analytic_entropy_def Let_def upt_2 inf_times_def)

lemma vocab_b_a: "vocab_of [''b'', ''a''] = [''a'', ''b'']"
  by (simp add: vocab_of_def sorted_list_of_set_sort_remdups)

lemma counts_b_a: "count_freqs_by_blocks [''b'', ''a''] [''a'', ''b''] 1 = Inr [[0, 1], [1, 0]]"
  by code_simp

lemma keywords_b_a:
  "mz_keywords [''b'', ''a''] 1 scores split weighted (Threshold (Num (- 1))) =
     Inr (format_result scores split [(''a'', Num 0), (''b'', Num 0)])"
  by (simp add: mz_keywords_def vocab_b_a counts_b_a scores_b_a resolve_threshold_def
      keyword_weights_def sort_weights_def fl_lt_def)

lemma vocab_a: "vocab_of [''a''] = [''a'']"
  by (simp add: vocab_of_def)

lemma counts_a: "count_freqs_by_blocks [''a''] [''a''] 1 = Inr [[1]]"
  by code_simp

lemma scores_a: "mz_scores [[Suc 0]] blocksize weighted = [Num 0]"
  by (simp add: mz_scores_def axis0_sum_def column_sum_def observed_entropy_def entropy_cell_def
     div_np_def fl_sum_def initial_cache_def analytic_entropy_def Let_def)

lemma log2_3_bound: "3 / 2 < log 2 3"
proof -
  have "log 2 (3 ^ 2) = real 2 * log 2 3" by (rule log_nat_power) simp
  moreover have "log 2 (2 ^ 3) = real 3 * log 2 2" by (rule log_nat_power) simp
  moreover have "log 2 (2 ^ 3) < log 2 (3 ^ 2)" by (subst log_less_cancel_iff) simp_all
  ultimately show ?thesis by simp
qed

lemma log2_thirds: "log 2 (1 / 3) = - log 2 3" "log 2 (2 / 3) = 1 - log 2 3"
proof -
  show "log 2 (1 / 3) = - log 2 3" by (rule log_recip)
  have "log 2 (2 / 3) = log 2 2 - log 2 3" by (rule log_divide_pos) simp_all
  then show "log 2 (2 / 3) = 1 - log 2 3" by simp
qed

lemma choose_values_6: "(3::nat) choose 1 = 3" "(3::nat) choose 2 = 3" "(6::nat) choose 3 = 20"
  "(3::nat) choose 3 = 1" "(3::nat) choose 0 = 1"
  by code_simp+

lemma marginal_3_6_3: "marginal_prob 3 6 3 1 = Num (9 / 20)" "marginal_prob 3 6 3 2 = Num (9 / 20)"
  "marginal_prob 3 6 3 3 = Num (1 / 20)"
  using marginal_prob_value [of 1 3 3 6] marginal_prob_value [of 2 3 3 6] marginal_prob_value [of 3 3 3 6]
  by (simp_all add: hypergeometric_def div_np_def choose_values_6)

lemma upto_1_3: "[1 .. 3 :: int] = [1, 2, 3]"
  by code_simp

lemma entropy_sum_3: "entropy_sum 3 2 6 3 = Num (9 / 10 * (log 2 3 - 2 / 3))"
  by (simp add: entropy_sum_def entropy_element_def marginal_3_6_3 div_np_def fl_sum_def Let_def
      log2_thirds upto_1_3 algebra_simps)

lemma vocab_aaabbb: "vocab_of [''a'', ''a'', ''a'', ''b'', ''b'', ''b''] = [''a'', ''b'']"
  by (simp add: vocab_of_def sorted_list_of_set_sort_remdups)

lemma counts_aaabbb:
  "count_freqs_by_blocks [''a'', ''a'', ''a'', ''b'', ''b'', ''b''] [''a'', ''b''] 3 = Inr [[3, 0], [0, 3]]"
  by code_simp

lemma scores_aaabbb:
  "mz_scores [[3, 0], [0, 3]] 3 False
     = [Num (9 / 10 * (log 2 3 - 2 / 3)), Num (9 / 10 * (log 2 3 - 2 / 3))]"
  by (simp add: mz_scores_def axis0_sum_def column_sum_def observed_entropy_def entropy_cell_def
     div_np_def fl_sum_def initial_cache_def analytic_entropy_def Let_def upt_2 inf_times_def
     entropy_sum_3)

lemma auto_below: "2 / 3 + 1 / 10 ^ 8 < 9 / 10 * (log 2 3 - 2 / 3)"
  using log2_3_bound by simp

lemma keywords_aaabbb:
  "mz_keywords [''a'', ''a'', ''a'', ''b'', ''b'', ''b''] 3 True False False Auto =
     Inr (Scored [(''a'', Num (9 / 10 * (log 2 3 - 2 / 3))), (''b'', Num (9 / 10 * (log 2 3 - 2 / 3)))])"
  using auto_below
  by (simp add: mz_keywords_def vocab_aaabbb counts_aaabbb scores_aaabbb resolve_threshold_def
      keyword_weights_def sort_weights_def fl_lt_def format_result_def div_np_def)

text \<open>
  Claim C4. When the scores are returned, every pair of the result has a score strictly
  greater than the resolved threshold: \<open>n_blocks / (n_blocks + 1.0) + 1e-8\<close> for
  \<^verbatim>\<open>'auto'\<close>, where \<open>n_blocks = ceil(len(tokens) / blocksize)\<close>, and the number given
  otherwise.
\<close>

theorem mz_keywords_scores_above_threshold:
  assumes "mz_keywords words blocksize True split weighted threshold = Inr result"
  shows "\<exists>weights. result = Scored weights \<and>
           (\<forall>(word, score)\<in>set weights. fl_gt score
              (let n_blocks = real_of_int \<lceil>real (length words) / real_of_int blocksize\<rceil>
               in case threshold of
                    Auto \<Rightarrow> Num (n_blocks / (n_blocks + 1) + 1 / 10 ^ 8)
                  | Threshold t \<Rightarrow> t))"
proof -
  from mz_keywords_Inr [OF assms] obtain M where
    M: "count_freqs_by_blocks words (vocab_of words) blocksize = Inr M"
    and bs: "1 \<le> blocksize"
    and r: "result = format_result True split
           (keyword_weights (vocab_of words) (mz_scores M blocksize weighted)
              (resolve_threshold (length M) threshold))" by blast
  let ?t = "resolve_threshold (length M) threshold"
  let ?ws = "keyword_weights (vocab_of words) (mz_scores M blocksize weighted) ?t"
  have "real (length M) = real_of_int \<lceil>real (length words) / real_of_int blocksize\<rceil>"
    using count_freqs_length [OF M bs] by (metis of_int_of_nat_eq)
  then have t: "?t = (let n_blocks = real_of_int \<lceil>real (length words) / real_of_int blocksize\<rceil>
               in case threshold of
                    Auto \<Rightarrow> Num (n_blocks / (n_blocks + 1) + 1 / 10 ^ 8)
                  | Threshold t \<Rightarrow> t)"
    by (simp add: resolve_threshold_value Let_def split: threshold.splits)
  have "result = Scored ?ws" using r by (simp add: format_result_def)
  moreover have "\<forall>(word, score)\<in>set ?ws. fl_gt score ?t"
    using keyword_weights_above by fastforce
  ultimately show ?thesis unfolding t by blast
qed

text \<open>
  Three tokens \<open>a\<close>, then three tokens \<open>b\<close>, in blocks of three, not weighted, with the
  threshold \<^verbatim>\<open>'auto'\<close>: both words have the score \<open>0.9 * (log2(3) - 2/3)\<close>, about 0.83,
  above the threshold \<open>2/3 + 1e-8\<close>.
\<close>

theorem mz_keywords_scores_above_threshold_witness:
  "mz_keywords [''a'', ''a'', ''a'', ''b'', ''b'', ''b''] 3 True False False Auto =
     Inr (Scored [(''a'', Num (9 / 10 * (log 2 3 - 2 / 3))),
                  (''b'', Num (9 / 10 * (log 2 3 - 2 / 3)))]) \<and>
   fl_gt (Num (9 / 10 * (log 2 3 - 2 / 3))) (Num (2 / (2 + 1) + 1 / 10 ^ 8))"
proof -
  let ?s = "Num (9 / 10 * (log 2 3 - 2 / 3))"
  have h: "mz_keywords [''a'', ''a'', ''a'', ''b'', ''b'', ''b''] 3 True False False Auto =
     Inr (Scored [(''a'', ?s), (''b'', ?s)])"
    by (rule keywords_aaabbb)
  from mz_keywords_scores_above_threshold [OF h]
  have "\<forall>(word, score)\<in>set [(''a'', ?s), (''b'', ?s)]. fl_gt score
          (let n_blocks = real_of_int \<lceil>real (length [''a'', ''a'', ''a'', ''b'', ''b'', ''b'']) / real_of_int 3\<rceil>
           in case Auto of Auto \<Rightarrow> Num (n_blocks / (n_blocks + 1) + 1 / 10 ^ 8) | Threshold t \<Rightarrow> t)"
    by blast
  then have "fl_gt ?s (Num (2 / (2 + 1) + 1 / 10 ^ 8))" by simp
  with h show ?thesis by blast
qed

text \<open>
  Claim C5. The result is sorted by non-increasing score, and words of equal score stand
  in the order of the sorted vocabulary. The list of pairs returned with \<open>scores\<close> has
  this order, and the other two shapes of the result are made of the same list.
\<close>

theorem mz_keywords_sorted_stable:
  assumes "mz_keywords words blocksize True split weighted threshold = Inr result"
  shows "\<exists>weights. result = Scored weights \<and>
           sorted_wrt (\<lambda>x y. fl_ge (snd x) (snd y) \<and> (snd x = snd y \<longrightarrow> fst x < fst y)) weights \<and>
           (\<forall>scores split'. mz_keywords words blocksize scores split' weighted threshold =
              Inr (if scores then Scored weights
                   else if split' then Keywords (map fst weights)
                   else Joined (join_newline (map fst weights))))"
proof -
  from mz_keywords_Inr [OF assms] obtain M where
    M: "count_freqs_by_blocks words (vocab_of words) blocksize = Inr M"
    and ne: "M \<noteq> []"
    and r: "result = format_result True split
           (keyword_weights (vocab_of words) (mz_scores M blocksize weighted)
              (resolve_threshold (length M) threshold))" by blast
  let ?ws = "keyword_weights (vocab_of words) (mz_scores M blocksize weighted)
               (resolve_threshold (length M) threshold)"
  have "result = Scored ?ws" using r by (simp add: format_result_def)
  moreover have "sorted_wrt ranked ?ws"
    by (rule keyword_weights_sorted) (rule sorted_vocab_of)
  then have "sorted_wrt (\<lambda>x y. fl_ge (snd x) (snd y) \<and> (snd x = snd y \<longrightarrow> fst x < fst y)) ?ws"
    by (simp add: ranked_def [abs_def])
  moreover have "mz_keywords words blocksize scores split' weighted threshold =
              Inr (if scores then Scored ?ws
                   else if split' then Keywords (map fst ?ws)
                   else Joined (join_newline (map fst ?ws)))" for scores split'
    using M ne by (simp add: mz_keywords_def format_result_def)
  ultimately show ?thesis by blast
qed

text \<open>The tokens \<open>b a\<close>, both of score 0: \<open>a\<close> comes first.\<close>

theorem mz_keywords_sorted_stable_witness:
  "mz_keywords [''b'', ''a''] 1 True True False (Threshold (Num (- 1)))
     = Inr (Scored [(''a'', Num 0), (''b'', Num 0)]) \<and>
   sorted_wrt (\<lambda>x y. fl_ge (snd x) (snd y) \<and> (snd x = snd y \<longrightarrow> fst x < fst y))
     [(''a'', Num 0), (''b'', Num 0)] \<and>
   mz_keywords [''b'', ''a''] 1 False True False (Threshold (Num (- 1)))
     = Inr (Keywords [''a'', ''b''])"
proof -
  have h: "mz_keywords [''b'', ''a''] 1 True True False (Threshold (Num (- 1)))
     = Inr (Scored [(''a'', Num 0), (''b'', Num 0)])"
    by (simp add: keywords_b_a format_result_def)
  from mz_keywords_sorted_stable [OF h]
  have "sorted_wrt (\<lambda>x y. fl_ge (snd x) (snd y) \<and> (snd x = snd y \<longrightarrow> fst x < fst y))
          [(''a'', Num 0), (''b'', Num 0)]"
    and "\<forall>scores split'. mz_keywords [''b'', ''a''] 1 scores split' False (Threshold (Num (- 1))) =
              Inr (if scores then Scored [(''a'', Num 0), (''b'', Num 0)]
                   else if split' then Keywords (map fst [(''a'', Num 0), (''b'', Num 0)])
                   else Joined (join_newline (map fst [(''a'', Num 0), (''b'', Num 0)])))"
    by blast+
  then show ?thesis using h by simp
qed

text \<open>
  Claim C10. For a non-empty document (and a blocksize of at least one) the count matrix
  exists, and when no score of it exceeds the resolved threshold the call returns without
  error: the empty list when \<open>scores\<close> or \<open>split\<close> is set, the empty string otherwise.
\<close>

theorem mz_keywords_nothing_above_threshold:
  assumes "words \<noteq> []" and "1 \<le> blocksize"
  shows "\<exists>word_counts. count_freqs_by_blocks words (vocab_of words) blocksize = Inr word_counts \<and>
           ((\<forall>score\<in>set (mz_scores word_counts blocksize weighted).
                \<not> fl_gt score (resolve_threshold (length word_counts) threshold)) \<longrightarrow>
            mz_keywords words blocksize scores split weighted threshold =
              Inr (if scores then Scored [] else if split then Keywords [] else Joined []))"
proof -
  from mz_keywords_total [OF assms, of scores split weighted threshold] obtain M where
    M: "count_freqs_by_blocks words (vocab_of words) blocksize = Inr M"
    and r: "mz_keywords words blocksize scores split weighted threshold =
           Inr (format_result scores split
             (keyword_weights (vocab_of words) (mz_scores M blocksize weighted)
                (resolve_threshold (length M) threshold)))" by blast
  have "mz_keywords words blocksize scores split weighted threshold =
              Inr (if scores then Scored [] else if split then Keywords [] else Joined [])"
    if "\<forall>score\<in>set (mz_scores M blocksize weighted).
                \<not> fl_gt score (resolve_threshold (length M) threshold)"
    using r keyword_weights_empty [OF that] by (simp add: format_result_def)
  with M show ?thesis by blast
qed

text \<open>One token: its score 0 does not exceed the threshold 0.\<close>

theorem mz_keywords_nothing_above_threshold_witness:
  "[''a''] \<noteq> [] \<and> (1::int) \<le> 1 \<and>
   count_freqs_by_blocks [''a''] (vocab_of [''a'']) 1 = Inr [[1]] \<and>
   \<not> fl_gt (Num 0) (Num 0) \<and> mz_scores [[1]] 1 True = [Num 0] \<and>
   mz_keywords [''a''] 1 False False True (Threshold (Num 0)) = Inr (Joined [])"
proof -
  have h1: "[''a''] \<noteq> []" by simp
  have h2: "(1::int) \<le> 1" by simp
  have c: "count_freqs_by_blocks [''a''] (vocab_of [''a'']) 1 = Inr [[1]]"
    by (simp add: vocab_a counts_a)
  from mz_keywords_nothing_above_threshold [OF h1 h2, of True "Threshold (Num 0)" False False]
  have "(\<forall>score\<in>set (mz_scores [[1]] 1 True).
                \<not> fl_gt score (resolve_threshold (length [[1::nat]]) (Threshold (Num 0)))) \<longrightarrow>
            mz_keywords [''a''] 1 False False True (Threshold (Num 0)) = Inr (Joined [])"
    using c by simp
  then have "mz_keywords [''a''] 1 False False True (Threshold (Num 0)) = Inr (Joined [])"
    by (simp add: scores_a resolve_threshold_def)
  then show ?thesis using c by (simp add: scores_a)
qed

section \<open>Joining and splitting\<close>

lemma split_newline_word: "CHR 0x0A \<notin> set w \<Longrightarrow> split_newline w = [w]"
  by (induction w) auto

lemma split_newline_append:
  "CHR 0x0A \<notin> set w \<Longrightarrow> split_newline (w @ CHR 0x0A # rest) = w # split_newline rest"
  by (induction w) auto

lemma split_join_newline:
  "ws \<noteq> [] \<Longrightarrow> \<forall>w\<in>set ws. CHR 0x0A \<notin> set w \<Longrightarrow> split_newline (join_newline ws) = ws"
proof (induction ws rule: join_newline.induct)
  case 1
  then show ?case by simp
next
  case (2 word)
  then show ?case by (simp add: split_newline_word)
next
  case (3 word v va)
  then show ?case by (simp add: split_newline_append)
qed

lemma keyword_weights_words: "set (map fst (keyword_weights vocab h t)) \<subseteq> set vocab"
  by (auto simp: keyword_weights_def set_sort_weights dest: set_zip_leftD)

text \<open>
  Claim C8, amended. When the tokens hold no newline character, the string returned
  without \<open>scores\<close> and \<open>split\<close>, split on newlines, is the list of keywords returned
  with \<open>split\<close> (the same words in the same order) if that list is not empty; if no
  keyword is returned the string is empty and splits into one empty piece.
\<close>

theorem split_joined_keywords:
  assumes "\<forall>w\<in>set words. CHR 0x0A \<notin> set w"
    and "mz_keywords words blocksize False True weighted threshold = Inr (Keywords keywords)"
  shows "\<exists>s. mz_keywords words blocksize False False weighted threshold = Inr (Joined s)
           \<and> split_newline s = (if keywords = [] then [[]] else keywords)"
proof -
  from mz_keywords_Inr [OF assms(2)] obtain M where
    M: "count_freqs_by_blocks words (vocab_of words) blocksize = Inr M"
    and ne: "M \<noteq> []"
    and r: "Keywords keywords = format_result False True
           (keyword_weights (vocab_of words) (mz_scores M blocksize weighted)
              (resolve_threshold (length M) threshold))" by blast
  let ?ws = "keyword_weights (vocab_of words) (mz_scores M blocksize weighted)
               (resolve_threshold (length M) threshold)"
  have k: "keywords = map fst ?ws" using r by (simp add: format_result_def)
  have "set keywords \<subseteq> set words"
    using keyword_weights_words [of "vocab_of words"] k by (simp add: set_vocab_of)
  then have "\<forall>w\<in>set keywords. CHR 0x0A \<notin> set w" using assms(1) by blast
  then have "split_newline (join_newline keywords) = (if keywords = [] then [[]] else keywords)"
    by (simp add: split_join_newline)
  moreover have "mz_keywords words blocksize False False weighted threshold
                   = Inr (Joined (join_newline keywords))"
    using M ne k by (simp add: mz_keywords_def format_result_def)
  ultimately show ?thesis by blast
qed

text \<open>The tokens \<open>b a\<close> with the threshold -1: the string is \<open>a\<close>, newline, \<open>b\<close>.\<close>

theorem split_joined_keywords_witness:
  "CHR 0x0A \<notin> set ''b'' \<and> CHR 0x0A \<notin> set ''a'' \<and>
   mz_keywords [''b'', ''a''] 1 False True True (Threshold (Num (- 1))) = Inr (Keywords [''a'', ''b'']) \<and>
   (\<exists>s. mz_keywords [''b'', ''a''] 1 False False True (Threshold (Num (- 1))) = Inr (Joined s)
      \<and> split_newline s = [''a'', ''b''])"
proof -
  have h1: "\<forall>w\<in>set [''b'', ''a'']. CHR 0x0A \<notin> set w" by simp
  have h2: "mz_keywords [''b'', ''a''] 1 False True True (Threshold (Num (- 1)))
              = Inr (Keywords [''a'', ''b''])"
    by (simp add: keywords_b_a format_result_def)
  from split_joined_keywords [OF h1 h2] h2 show ?thesis by simp
qed

lemma keywords_a_default:
  "mz_keywords [''a''] 128 scores split True (Threshold (Num 0)) = Inr (format_result scores split [])"
proof -
  have "count_freqs_by_blocks [''a''] [''a''] 128 = Inr [[Suc 0]]" by code_simp
  then show ?thesis
    by (simp add: mz_keywords_def vocab_a scores_a resolve_threshold_def
      keyword_weights_def sort_weights_def)
qed

text \<open>
  Claim C8 as stated fails when no keyword is returned: for the single token \<open>a\<close> and
  the default parameters the list is empty, the string is empty, and the empty string
  splits into one empty piece.
\<close>

theorem split_joined_keywords_counterexample:
  "mz_keywords [''a''] 128 False False True (Threshold (Num 0)) = Inr (Joined []) \<and>
   mz_keywords [''a''] 128 False True True (Threshold (Num 0)) = Inr (Keywords []) \<and>
   split_newline [] \<noteq> []"
  by (simp add: keywords_a_default format_result_def)

section \<open>The empty document\<close>



end
